theory Spec2Isabelle
  imports Main "HOL-Library.Sublist"
begin

section \<open>Candidate generator (generator.py)\<close>

subsection \<open>Python string and itertools primitives used by the generator\<close>

text \<open>\<^verbatim>\<open>s.startswith(p)\<close> for one prefix \<open>p\<close>.\<close>

definition startswith :: "string \<Rightarrow> string \<Rightarrow> bool" where
  "startswith s p = (take (length p) s = p)"

text \<open>\<^verbatim>\<open>s.replace(a, b)\<close> for single characters \<open>a\<close> and \<open>b\<close>.\<close>

definition replace_char :: "char \<Rightarrow> char \<Rightarrow> string \<Rightarrow> string" where
  "replace_char a b s = map (\<lambda>c. if c = a then b else c) s"

text \<open>\<^verbatim>\<open>sep.join(xs)\<close>.\<close>

fun join :: "string \<Rightarrow> string list \<Rightarrow> string" where
  "join sep [] = []"
| "join sep [x] = x"
| "join sep (x # y # ys) = x @ sep @ join sep (y # ys)"

text \<open>Decimal digits of a natural number, and the format \<^verbatim>\<open>{i:02d}\<close> (zero padded to
  width two) for a non-negative \<open>i\<close>.\<close>

definition digit :: "nat \<Rightarrow> char" where
  "digit d = char_of (48 + d)"

fun str_nat :: "nat \<Rightarrow> string" where
  "str_nat n = (if n < 10 then [digit n] else str_nat (n div 10) @ [digit (n mod 10)])"

declare str_nat.simps [simp del]

definition fmt_02d :: "nat \<Rightarrow> string" where
  "fmt_02d i = replicate (2 - length (str_nat i)) (CHR ''0'') @ str_nat i"

text \<open>\<^verbatim>\<open>itertools.combinations(xs, r)\<close>: the \<open>r\<close>-element subsequences of \<open>xs\<close>, in
  lexicographic order of their positions.\<close>

fun combinations :: "'a list \<Rightarrow> nat \<Rightarrow> 'a list list" where
  "combinations xs 0 = [[]]"
| "combinations [] (Suc r) = []"
| "combinations (x # xs) (Suc r) = map ((#) x) (combinations xs r) @ combinations xs (Suc r)"

text \<open>\<open>selects xs\<close> pairs every element of \<open>xs\<close> with the remaining elements, in order of
  position; \<^verbatim>\<open>itertools.permutations(xs, r)\<close> picks \<open>r\<close> elements one after the other,
  and \<^verbatim>\<open>itertools.permutations(xs)\<close> is the case \<open>r = len(xs)\<close>.\<close>

fun selects :: "'a list \<Rightarrow> ('a \<times> 'a list) list" where
  "selects [] = []"
| "selects (x # xs) = (x, xs) # map (\<lambda>(y, ys). (y, x # ys)) (selects xs)"

fun permutations_r :: "nat \<Rightarrow> 'a list \<Rightarrow> 'a list list" where
  "permutations_r 0 xs = [[]]"
| "permutations_r (Suc r) xs =
     concat (map (\<lambda>(y, ys). map ((#) y) (permutations_r r ys)) (selects xs))"

definition permutations :: "'a list \<Rightarrow> 'a list list" where
  "permutations xs = permutations_r (length xs) xs"

subsection \<open>The word lists of \<open>SubdomainGenerator\<close>\<close>

definition COMMON_PREFIXES :: "string list" where
  "COMMON_PREFIXES =
    [''www'', ''mail'', ''ftp'', ''smtp'', ''pop'', ''imap'', ''webmail'',
     ''admin'', ''administrator'', ''login'', ''dashboard'', ''panel'',
     ''api'', ''api2'', ''api3'', ''vpn'', ''remote'', ''ssh'',
     ''dev'', ''development'', ''staging'', ''test'', ''qa'',
     ''blog'', ''news'', ''forum'', ''support'', ''help'', ''docs'',
     ''app'', ''apps'', ''application'', ''portal'', ''hub'',
     ''static'', ''assets'', ''cdn'', ''media'', ''images'', ''img'',
     ''shop'', ''store'', ''ecommerce'', ''payment'', ''pay'',
     ''m'', ''mobile'', ''wap'', ''i'', ''iphone'',
     ''secure'', ''ssl'', ''safe'', ''private'',
     ''cpanel'', ''whm'', ''webdisk'', ''webhost'',
     ''ns1'', ''ns2'', ''ns3'', ''dns'', ''mx'', ''mx1'', ''mx2'',
     ''git'', ''svn'', ''repo'', ''code'',
     ''status'', ''monitor'', ''monitoring'', ''metrics'',
     ''db'', ''database'', ''sql'', ''mysql'', ''postgres'']"

definition ENVIRONMENTS :: "string list" where
  "ENVIRONMENTS = [''dev'', ''test'', ''staging'', ''prod'', ''production'', ''uat'', ''qa'']"

definition GEO_PREFIXES :: "string list" where
  "GEO_PREFIXES = [''us'', ''uk'', ''eu'', ''de'', ''fr'', ''jp'', ''sg'', ''au'', ''in'']"

subsection \<open>\<open>generate_candidates\<close>, layer by layer\<close>

text \<open>Lines 52-54: a leading \<^verbatim>\<open>www.\<close> is removed once.\<close>

definition strip_www :: "string \<Rightarrow> string" where
  "strip_www domain = (if startswith domain ''www.'' then drop 4 domain else domain)"

text \<open>Lines 56-76: the base candidates.\<close>

definition base_candidates :: "string \<Rightarrow> string list" where
  "base_candidates domain =
    [''www.'' @ domain, ''mail.'' @ domain, ''api.'' @ domain, ''admin.'' @ domain,
     ''blog.'' @ domain, ''dev.'' @ domain, ''staging.'' @ domain, ''test.'' @ domain,
     ''mobile.'' @ domain, ''static.'' @ domain, ''cdn.'' @ domain, ''portal.'' @ domain,
     ''app.'' @ domain, ''secure.'' @ domain, ''vpn.'' @ domain, ''m.'' @ domain,
     ''old.'' @ domain, ''new.'' @ domain]"

text \<open>Lines 80-82: one candidate per common prefix.\<close>

definition common_layer :: "string \<Rightarrow> string list" where
  "common_layer domain = map (\<lambda>prefix. prefix @ ''.'' @ domain) COMMON_PREFIXES"

text \<open>Lines 85-95, the branch \<^verbatim>\<open>mode == 'normal'\<close>.\<close>

definition normal_layer :: "string \<Rightarrow> string list" where
  "normal_layer domain =
     concat (map (\<lambda>env. [env @ ''.'' @ domain, env @ ''-web.'' @ domain]) (take 3 ENVIRONMENTS))
     @ concat (map (\<lambda>num. [''web'' @ num @ ''.'' @ domain,
                             ''app'' @ num @ ''.'' @ domain,
                             ''api'' @ num @ ''.'' @ domain])
                   [''1'', ''2'', ''3'', ''01'', ''02''])"

text \<open>Lines 98-117, the branch \<^verbatim>\<open>mode == 'medium'\<close>.\<close>

definition medium_layer :: "string \<Rightarrow> string list" where
  "medium_layer domain =
     concat (map (\<lambda>env. [env @ ''.'' @ domain, env @ ''-web.'' @ domain,
                             ''web-'' @ env @ ''.'' @ domain, env @ ''-app.'' @ domain])
                 ENVIRONMENTS)
     @ concat (map (\<lambda>geo. [geo @ ''.'' @ domain, geo @ ''-web.'' @ domain,
                             ''www-'' @ geo @ ''.'' @ domain])
                   GEO_PREFIXES)
     @ concat (map (\<lambda>i. [''web'' @ fmt_02d i @ ''.'' @ domain,
                           ''app'' @ fmt_02d i @ ''.'' @ domain,
                           ''api'' @ fmt_02d i @ ''.'' @ domain,
                           ''server'' @ fmt_02d i @ ''.'' @ domain])
                   [1..<11])"

text \<open>Lines 120-156, the branch \<^verbatim>\<open>mode == 'ultimate'\<close>.\<close>

definition ultimate_layer :: "string \<Rightarrow> string list" where
  "ultimate_layer domain =
     concat (map (\<lambda>env.
        concat (map (\<lambda>prefix.
           (prefix @ env @ ''.'' @ domain)
           # map (\<lambda>num. prefix @ env @ num @ ''.'' @ domain) ['''', ''1'', ''2'', ''3''])
         ['''', ''www-'', ''web-'', ''app-'', ''api-'']))
       ENVIRONMENTS)
     @ concat (map (\<lambda>geo.
        concat (map (\<lambda>env. [geo @ ''-'' @ env @ ''.'' @ domain,
                                env @ ''-'' @ geo @ ''.'' @ domain])
         (take 4 ENVIRONMENTS)))
       GEO_PREFIXES)
     @ concat (map (\<lambda>prefix1.
        concat (map (\<lambda>prefix2.
           (prefix1 @ ''-'' @ prefix2 @ ''.'' @ domain)
           # map (\<lambda>num. prefix1 @ num @ ''-'' @ prefix2 @ ''.'' @ domain) ['''', ''1'', ''2''])
         (take 3 ENVIRONMENTS)))
       [''app'', ''web'', ''api'', ''service''])
     @ concat (map (\<lambda>i.
        concat (map (\<lambda>prefix. [prefix @ fmt_02d i @ ''.'' @ domain,
                                   prefix @ ''-'' @ fmt_02d i @ ''.'' @ domain])
         [''web'', ''app'', ''api'', ''server'', ''node'', ''host'']))
       [1..<21])
     @ [''alpha.'' @ domain, ''beta.'' @ domain, ''gamma.'' @ domain,
        ''prod-'' @ replace_char (CHR ''.'') (CHR ''-'') domain @ ''.'' @ domain,
        ''internal.'' @ domain, ''external.'' @ domain,
        ''legacy.'' @ domain, ''modern.'' @ domain,
        ''cloud.'' @ domain, ''aws.'' @ domain, ''azure.'' @ domain,
        ''office.'' @ domain, ''home.'' @ domain, ''remote.'' @ domain]"

text \<open>Lines 159-173: hyphen-joined permutations of combinations of six common words.\<close>

definition common_words :: "string list" where
  "common_words = [''admin'', ''api'', ''web'', ''app'', ''dev'', ''test'']"

definition word_layer :: "string \<Rightarrow> string \<Rightarrow> string list" where
  "word_layer mode domain =
     (let max_combinations = (if mode = ''medium'' then 2 else (3::nat)) in
      concat (map (\<lambda>i.
        concat (map (\<lambda>combo.
          concat (map (\<lambda>perm.
            if mode = ''ultimate'' \<or> length perm \<le> 2
            then [join ''-'' perm @ ''.'' @ domain] else [])
           (permutations combo)))
         (combinations common_words i)))
       [2..<min (max_combinations + 1) (length common_words + 1)]))"

text \<open>The whole function. The accumulating set \<open>candidates\<close> is threaded through the
  layers in the order of the source; \<open>mode\<close> is an arbitrary string, and a mode that is
  none of the three tokens gets the base and common layers only.\<close>

definition generate_candidates :: "string \<Rightarrow> string \<Rightarrow> string set" where
  "generate_candidates domain0 mode =
     (let domain = strip_www domain0;
          candidates = {};
          candidates = candidates \<union> set (base_candidates domain);
          candidates = candidates \<union> set (common_layer domain);
          candidates =
            (if mode = ''normal'' then candidates \<union> set (normal_layer domain)
             else if mode = ''medium'' then candidates \<union> set (medium_layer domain)
             else if mode = ''ultimate'' then candidates \<union> set (ultimate_layer domain)
             else candidates);
          candidates =
            (if mode \<in> set [''medium'', ''ultimate'']
             then candidates \<union> set (word_layer mode domain)
             else candidates)
      in candidates)"

text \<open>The Domain invariant of the data model, as \<^verbatim>\<open>validate_domain\<close> (utils.py, lines
  30-31) checks it: the whole string matches \<^verbatim>\<open>^[a-z0-9.-]+\.[a-z]{2,}$\<close>. The last
  group holds no dot, so it is what follows the last dot of the string; a string with a
  trailing newline is not taken as a domain.\<close>

definition is_lower :: "char \<Rightarrow> bool" where
  "is_lower c = (97 \<le> (of_char c :: nat) \<and> (of_char c :: nat) \<le> 122)"

definition is_digit :: "char \<Rightarrow> bool" where
  "is_digit c = (48 \<le> (of_char c :: nat) \<and> (of_char c :: nat) \<le> 57)"

definition domain_invariant :: "string \<Rightarrow> bool" where
  "domain_invariant d =
     (let tld = rev (takeWhile (\<lambda>c. c \<noteq> CHR ''.'') (rev d));
          body = take (length d - length tld - 1) d
      in length tld < length d \<and> body \<noteq> []
         \<and> list_all (\<lambda>c. is_lower c \<or> is_digit c \<or> c = CHR ''.'' \<or> c = CHR ''-'') body
         \<and> 2 \<le> length tld \<and> list_all is_lower tld)"

section \<open>Scanner (scanner.py)\<close>

subsection \<open>Exceptions and the \<^verbatim>\<open>except\<close> clause\<close>

text \<open>The exceptions the resolver and the HTTP client raise, each named by its class;
  \<open>Exception\<close> stands for an exception of any other class. All of them derive from
  \<open>Exception\<close>: \<open>mro e\<close> lists the classes \<open>e\<close> is an instance of. The interpreter's own
  signals that are not \<open>Exception\<close>s (task cancellation, keyboard interrupt) are no
  results of a lookup or a request and are not modelled.\<close>

datatype exn = Exception | DNSException | NXDOMAIN | NoAnswer | Timeout
  | ClientError | TimeoutError | OSError | gaierror | ValueError | UnicodeDecodeError
  | AttributeError

fun mro :: "exn \<Rightarrow> exn list" where
  "mro Exception = [Exception]"
| "mro DNSException = [DNSException, Exception]"
| "mro NXDOMAIN = [NXDOMAIN, DNSException, Exception]"
| "mro NoAnswer = [NoAnswer, DNSException, Exception]"
| "mro Timeout = [Timeout, DNSException, Exception]"
| "mro ClientError = [ClientError, Exception]"
| "mro TimeoutError = [TimeoutError, Exception]"
| "mro OSError = [OSError, Exception]"
| "mro gaierror = [gaierror, OSError, Exception]"
| "mro ValueError = [ValueError, Exception]"
| "mro UnicodeDecodeError = [UnicodeDecodeError, ValueError, Exception]"
| "mro AttributeError = [AttributeError, Exception]"

definition isinstance :: "exn \<Rightarrow> exn \<Rightarrow> bool" where
  "isinstance e cls = (cls \<in> set (mro e))"

text \<open>\<^verbatim>\<open>except (c1, ..., cn):\<close> handles \<open>e\<close> when \<open>e\<close> is an instance of one of the classes;
  a bare \<^verbatim>\<open>except:\<close> handles everything.\<close>

definition handles :: "exn list \<Rightarrow> exn \<Rightarrow> bool" where
  "handles classes e = list_ex (isinstance e) classes"

text \<open>The classes of an \<^verbatim>\<open>except\<close> clause are written as attributes of modules, and
  the tuple is built when an exception reaches the clause, element by element from the
  left: an attribute the module does not have raises \<open>AttributeError\<close> there, in place of
  the exception being handled. Of the names the source uses, the module
  \<^verbatim>\<open>dns.asyncresolver\<close> has \<^verbatim>\<open>NXDOMAIN\<close> and \<^verbatim>\<open>NoAnswer\<close> (it takes them from
  \<^verbatim>\<open>dns.resolver\<close>) and has no \<^verbatim>\<open>Timeout\<close>; the module \<^verbatim>\<open>dns.exception\<close> has
  \<^verbatim>\<open>DNSException\<close> and \<^verbatim>\<open>Timeout\<close>.\<close>

definition asyncresolver_attr :: "string \<Rightarrow> exn + exn" where
  "asyncresolver_attr name =
     (if name = ''NXDOMAIN'' then Inr NXDOMAIN
      else if name = ''NoAnswer'' then Inr NoAnswer
      else Inl AttributeError)"

definition exception_attr :: "string \<Rightarrow> exn + exn" where
  "exception_attr name =
     (if name = ''DNSException'' then Inr DNSException
      else if name = ''Timeout'' then Inr Timeout
      else Inl AttributeError)"

fun except_classes :: "(exn + exn) list \<Rightarrow> exn + exn list" where
  "except_classes [] = Inr []"
| "except_classes (Inl err # rest) = Inl err"
| "except_classes (Inr cls # rest) =
     (case except_classes rest of Inl err \<Rightarrow> Inl err | Inr classes \<Rightarrow> Inr (cls # classes))"

text \<open>A library call succeeded when it returned a value.\<close>

definition succeeded :: "exn + 'a \<Rightarrow> bool" where
  "succeeded r = (case r of Inl e \<Rightarrow> False | Inr v \<Rightarrow> True)"

subsection \<open>The scanner object and the network\<close>

record scanner =
  concurrency :: int
  timeout :: int
  resolver_timeout :: int
  resolver_lifetime :: int

text \<open>\<^verbatim>\<open>SubdomainScanner.__init__\<close> (lines 17-22): the arguments are stored as they are.\<close>

definition SubdomainScanner :: "int \<Rightarrow> int \<Rightarrow> scanner" where
  "SubdomainScanner c t =
     \<lparr>concurrency = c, timeout = t, resolver_timeout = t, resolver_lifetime = t\<rparr>"

text \<open>The network is a parameter of the model. \<open>resolver_resolve net (timeout, lifetime)
  name rdtype\<close> is the outcome of \<^verbatim>\<open>self.resolver.resolve(name, rdtype)\<close>: an answer or
  an exception. \<open>session_head net limit total url\<close> is the outcome of the HEAD request
  of \<open>check_https\<close>, made through a connector with that limit and a client timeout of
  \<open>total\<close>: the status of the final response or an exception.\<close>

datatype rdtype = RdA | RdCNAME

record network =
  resolver_resolve :: "int \<times> int \<Rightarrow> string \<Rightarrow> rdtype \<Rightarrow> exn + unit"
  session_head :: "int \<Rightarrow> int \<Rightarrow> string \<Rightarrow> exn + int"

subsection \<open>\<open>resolve_dns\<close> and \<open>check_https\<close>\<close>

text \<open>\<open>resolve_dns\<close> (lines 24-42) returns its result together with the lookups it
  issued, in order. The handler of the first \<^verbatim>\<open>try\<close> (lines 32-36) lists five classes:
  \<^verbatim>\<open>dns.asyncresolver.NXDOMAIN\<close>, \<^verbatim>\<open>dns.asyncresolver.NoAnswer\<close>,
  \<^verbatim>\<open>dns.asyncresolver.Timeout\<close>, \<^verbatim>\<open>dns.exception.DNSException\<close> and \<open>Exception\<close>. When
  building that tuple raises, the exception leaves \<open>resolve_dns\<close>: the second \<^verbatim>\<open>try\<close>
  stands in the body of the handler and is not reached. The handler of the second
  \<^verbatim>\<open>try\<close> is a bare \<^verbatim>\<open>except:\<close>.\<close>

definition resolve_dns ::
  "scanner \<Rightarrow> network \<Rightarrow> string \<Rightarrow> (exn + bool) \<times> (string \<times> rdtype) list" where
  "resolve_dns self net subdomain =
     (let cfg = (resolver_timeout self, resolver_lifetime self) in
      case resolver_resolve net cfg subdomain RdA of
        Inr answer \<Rightarrow> (Inr True, [(subdomain, RdA)])
      | Inl e \<Rightarrow>
          (case except_classes
                  [asyncresolver_attr ''NXDOMAIN'', asyncresolver_attr ''NoAnswer'',
                   asyncresolver_attr ''Timeout'', exception_attr ''DNSException'',
                   Inr Exception] of
             Inl err \<Rightarrow> (Inl err, [(subdomain, RdA)])
           | Inr classes \<Rightarrow>
               if handles classes e
               then (case resolver_resolve net cfg subdomain RdCNAME of
                       Inr answer \<Rightarrow> (Inr True, [(subdomain, RdA), (subdomain, RdCNAME)])
                     | Inl e' \<Rightarrow> (Inr False, [(subdomain, RdA), (subdomain, RdCNAME)]))
               else (Inl e, [(subdomain, RdA)])))"

text \<open>\<open>check_https\<close> (lines 44-70): an exception outside the five listed classes leaves
  the function.\<close>

definition check_https :: "scanner \<Rightarrow> network \<Rightarrow> string \<Rightarrow> exn + bool" where
  "check_https self net subdomain =
     (let url = ''https://'' @ subdomain in
      case session_head net (concurrency self) (timeout self) url of
        Inr status \<Rightarrow> Inr (status < 400)
      | Inl e \<Rightarrow>
          if handles [ClientError, TimeoutError, gaierror, OSError, UnicodeDecodeError] e
          then Inr False
          else Inl e)"

subsection \<open>\<open>scan_subdomains\<close>: the tasks, the semaphore and the event loop\<close>

text \<open>A task \<open>check_subdomain(subdomain)\<close> (lines 82-89) is at one of four points: waiting
  for the semaphore; holding it, with the DNS check under way; resolved and added to
  \<open>dns_resolved\<close>, with the HTTPS check under way; or done, with the exception it raised
  if any. The event loop runs one task at a time between two of these points, so each
  move of a task is atomic. Leaving \<^verbatim>\<open>async with semaphore\<close> releases it, on every
  path.\<close>

datatype pc = Waiting | Acquired | Resolved | Done "exn option"

fun is_done :: "pc \<Rightarrow> bool" where
  "is_done (Done r) = True"
| "is_done p = False"

record loop_state =
  tasks :: "pc list"
  sem_value :: int
  dns_resolved :: "string set"
  https_alive :: "string set"

definition release :: "loop_state \<Rightarrow> loop_state" where
  "release s = s\<lparr>sem_value := sem_value s + 1\<rparr>"

text \<open>One move of the task for \<open>subdomain\<close> from point \<open>p\<close> in state \<open>s\<close>: the task's next
  point and the new state, or \<open>None\<close> when the task cannot move (it waits for a
  semaphore whose value is 0, or it is done).\<close>

fun check_subdomain ::
  "scanner \<Rightarrow> network \<Rightarrow> string \<Rightarrow> pc \<Rightarrow> loop_state \<Rightarrow> (pc \<times> loop_state) option" where
  "check_subdomain self net subdomain Waiting s =
     (if 0 < sem_value s then Some (Acquired, s\<lparr>sem_value := sem_value s - 1\<rparr>) else None)"
| "check_subdomain self net subdomain Acquired s =
     (case fst (resolve_dns self net subdomain) of
        Inl e \<Rightarrow> Some (Done (Some e), release s)
      | Inr r \<Rightarrow>
          if r then Some (Resolved, s\<lparr>dns_resolved := insert subdomain (dns_resolved s)\<rparr>)
          else Some (Done None, release s))"
| "check_subdomain self net subdomain Resolved s =
     (case check_https self net subdomain of
        Inl e \<Rightarrow> Some (Done (Some e), release s)
      | Inr r \<Rightarrow>
          if r then Some (Done None, release (s\<lparr>https_alive := insert subdomain (https_alive s)\<rparr>))
          else Some (Done None, release s))"
| "check_subdomain self net subdomain (Done r) s = None"

text \<open>The event loop picks any task that can move. \<open>subdomains\<close> lists the candidate set
  in the order in which line 92 iterates over it; task \<open>i\<close> checks \<open>subdomains ! i\<close>.\<close>

inductive step :: "scanner \<Rightarrow> network \<Rightarrow> string list \<Rightarrow> loop_state \<Rightarrow> loop_state \<Rightarrow> bool"
  for self net subdomains where
  run_task:
    "i < length subdomains \<Longrightarrow> i < length (tasks s) \<Longrightarrow>
     check_subdomain self net (subdomains ! i) (tasks s ! i) s = Some (p', s') \<Longrightarrow>
     step self net subdomains s (s'\<lparr>tasks := (tasks s)[i := p']\<rparr>)"

definition initial :: "scanner \<Rightarrow> string list \<Rightarrow> loop_state" where
  "initial self subdomains =
     \<lparr>tasks = map (\<lambda>subdomain. Waiting) subdomains, sem_value = concurrency self,
      dns_resolved = {}, https_alive = {}\<rparr>"

definition all_done :: "loop_state \<Rightarrow> bool" where
  "all_done s = list_all is_done (tasks s)"

text \<open>\<open>scan_subdomains\<close> (lines 72-95). \<^verbatim>\<open>asyncio.Semaphore(value)\<close> raises \<open>ValueError\<close>
  for a negative value, before any task exists. Otherwise \<^verbatim>\<open>gather\<close> with
  \<^verbatim>\<open>return_exceptions=True\<close> returns once every task is done, whether it returned or
  raised, and the function returns \<^verbatim>\<open>https_alive, dns_resolved\<close>. The outcome is paired
  with the scanner object as the call leaves it; an invocation that never returns has
  no outcome.\<close>

inductive scan_subdomains ::
  "scanner \<Rightarrow> network \<Rightarrow> string list \<Rightarrow> scanner \<times> (exn + string set \<times> string set) \<Rightarrow> bool"
  where
  semaphore_raises:
    "concurrency self < 0 \<Longrightarrow> scan_subdomains self net subdomains (self, Inl ValueError)"
| gathered:
    "0 \<le> concurrency self \<Longrightarrow>
     rtranclp (step self net subdomains) (initial self subdomains) s \<Longrightarrow> all_done s \<Longrightarrow>
     scan_subdomains self net subdomains (self, Inr (https_alive s, dns_resolved s))"

text \<open>\<open>quick_scan\<close> (lines 97-102) assigns 20 to \<open>self.concurrency\<close> and scans.\<close>

inductive quick_scan ::
  "scanner \<Rightarrow> network \<Rightarrow> string list \<Rightarrow> scanner \<times> (exn + string set \<times> string set) \<Rightarrow> bool"
  where
  quick:
    "scan_subdomains (self\<lparr>concurrency := 20\<rparr>) net subdomains out \<Longrightarrow>
     quick_scan self net subdomains out"

text \<open>\<open>get_scanner_for_mode\<close> (lines 105-114).\<close>

definition get_scanner_for_mode :: "string \<Rightarrow> scanner" where
  "get_scanner_for_mode mode =
     (if mode = ''normal'' then SubdomainScanner 20 5
      else if mode = ''medium'' then SubdomainScanner 30 8
      else SubdomainScanner 50 10)"

subsection \<open>What the results are compared with\<close>

text \<open>A candidate is DNS-resolved when \<open>resolve_dns\<close> returns \<open>True\<close> for it, and
  HTTPS-alive when it is DNS-resolved and \<open>check_https\<close> returns \<open>True\<close> for it.\<close>

definition dns_resolves :: "scanner \<Rightarrow> network \<Rightarrow> string \<Rightarrow> bool" where
  "dns_resolves self net c = (fst (resolve_dns self net c) = Inr True)"

definition https_answers :: "scanner \<Rightarrow> network \<Rightarrow> string \<Rightarrow> bool" where
  "https_answers self net c = (dns_resolves self net c \<and> check_https self net c = Inr True)"

text \<open>A check raises when an exception leaves \<open>resolve_dns\<close> or, for a resolved
  candidate, \<open>check_https\<close>.\<close>

definition check_raises :: "scanner \<Rightarrow> network \<Rightarrow> string \<Rightarrow> bool" where
  "check_raises self net c =
     (isl (fst (resolve_dns self net c))
      \<or> (dns_resolves self net c \<and> isl (check_https self net c)))"

text \<open>A network for the examples: \<^verbatim>\<open>api.example.com\<close> has an address record and answers
  HTTPS with status 200; \<^verbatim>\<open>old.example.com\<close> has an address record and times out on
  HTTPS; \<^verbatim>\<open>cname.example.com\<close> has a canonical name only (its address lookup gets no
  answer) and an HTTPS request to it would raise an exception of an unlisted class; no
  other name exists.\<close>

definition example_net :: network where
  "example_net =
     \<lparr>resolver_resolve = (\<lambda>cfg name rd.
         if name = ''api.example.com'' \<and> rd = RdA then Inr ()
         else if name = ''old.example.com'' \<and> rd = RdA then Inr ()
         else if name = ''cname.example.com'' \<and> rd = RdCNAME then Inr ()
         else if name = ''cname.example.com'' then Inl NoAnswer
         else Inl NXDOMAIN),
      session_head = (\<lambda>limit total url.
         if url = ''https://api.example.com'' then Inr 200
         else if url = ''https://old.example.com'' then Inl TimeoutError
         else if url = ''https://cname.example.com'' then Inl ValueError
         else Inl ClientError)\<rparr>"

subsection \<open>The invariant of the event loop\<close>

text \<open>\<open>marked P ts subdomains\<close> are the candidates with a task whose point satisfies \<open>P\<close>.
  In every state the loop reaches, \<open>dns_resolved\<close> holds the resolving candidates whose
  task is past its DNS check, and \<open>https_alive\<close> the answering candidates whose task is
  done.\<close>

definition past_dns :: "pc \<Rightarrow> bool" where
  "past_dns p = (p = Resolved \<or> is_done p)"

definition marked :: "(pc \<Rightarrow> bool) \<Rightarrow> pc list \<Rightarrow> string list \<Rightarrow> string set" where
  "marked P ts subdomains = {c. \<exists>j. j < length subdomains \<and> c = subdomains ! j \<and> P (ts ! j)}"

definition inv :: "scanner \<Rightarrow> network \<Rightarrow> string list \<Rightarrow> loop_state \<Rightarrow> bool" where
  "inv self net subs s =
     (length (tasks s) = length subs
      \<and> (\<forall>j<length subs. tasks s ! j = Resolved \<longrightarrow> dns_resolves self net (subs ! j))
      \<and> dns_resolved s = marked past_dns (tasks s) subs \<inter> Collect (dns_resolves self net)
      \<and> https_alive s = marked is_done (tasks s) subs \<inter> Collect (https_answers self net))"

text \<open>For the progress of the loop: a task holds the semaphore between acquiring it and
  being done, and \<open>remaining\<close> counts the moves a task has left at most.\<close>

fun in_flight :: "pc \<Rightarrow> int" where
  "in_flight Acquired = 1"
| "in_flight Resolved = 1"
| "in_flight p = 0"

fun remaining :: "pc \<Rightarrow> nat" where
  "remaining Waiting = 3"
| "remaining Acquired = 2"
| "remaining Resolved = 1"
| "remaining (Done r) = 0"

section \<open>Facts about the generator\<close>

lemma suffix_dot_base: "c \<in> set (base_candidates d) \<Longrightarrow> suffix (''.'' @ d) c"
  by (auto simp: base_candidates_def suffix_Cons)

lemma suffix_dot_common: "c \<in> set (common_layer d) \<Longrightarrow> suffix (''.'' @ d) c"
  by (auto simp: common_layer_def suffix_Cons suffix_append)

lemma suffix_dot_normal: "c \<in> set (normal_layer d) \<Longrightarrow> suffix (''.'' @ d) c"
  by (auto simp: normal_layer_def suffix_Cons suffix_append)

lemma suffix_dot_medium: "c \<in> set (medium_layer d) \<Longrightarrow> suffix (''.'' @ d) c"
  by (auto simp: medium_layer_def suffix_Cons suffix_append)

lemma suffix_dot_ultimate: "c \<in> set (ultimate_layer d) \<Longrightarrow> suffix (''.'' @ d) c"
  by (auto simp: ultimate_layer_def suffix_Cons suffix_append)

lemma suffix_dot_word: "c \<in> set (word_layer m d) \<Longrightarrow> suffix (''.'' @ d) c"
  by (auto simp: word_layer_def Let_def suffix_Cons suffix_append split: if_splits)

lemma suffix_dot_generate:
  "c \<in> generate_candidates d m \<Longrightarrow> suffix (''.'' @ strip_www d) c"
  unfolding generate_candidates_def Let_def
  by (auto split: if_splits dest: suffix_dot_base suffix_dot_common suffix_dot_normal
      suffix_dot_medium suffix_dot_ultimate suffix_dot_word)

lemma suffix_Cons_neq: "suffix (x # d) c \<Longrightarrow> c \<noteq> d"
  by (auto simp: suffix_def)

section \<open>Facts about the scanner\<close>

text \<open>What \<open>resolve_dns\<close> computes: the tuple of the first handler cannot be built, so a
  failed address lookup ends in \<open>AttributeError\<close>.\<close>

lemma first_handler_raises:
  "except_classes
     [asyncresolver_attr ''NXDOMAIN'', asyncresolver_attr ''NoAnswer'',
      asyncresolver_attr ''Timeout'', exception_attr ''DNSException'', Inr Exception]
   = Inl AttributeError"
  by (simp add: asyncresolver_attr_def exception_attr_def)

lemma resolve_dns_code:
  "resolve_dns self net c =
     (if succeeded (resolver_resolve net (resolver_timeout self, resolver_lifetime self) c RdA)
      then (Inr True, [(c, RdA)])
      else (Inl AttributeError, [(c, RdA)]))"
  by (simp add: resolve_dns_def Let_def first_handler_raises succeeded_def split: sum.splits)

lemma dns_resolves_iff:
  "dns_resolves self net c \<longleftrightarrow>
     succeeded (resolver_resolve net (resolver_timeout self, resolver_lifetime self) c RdA)"
  by (simp add: dns_resolves_def resolve_dns_code)

lemma marked_update:
  assumes "i < length subs" and "length ts = length subs" and "P (ts ! i) \<longrightarrow> P p"
  shows "marked P (ts[i := p]) subs =
           (if P p then insert (subs ! i) (marked P ts subs) else marked P ts subs)"
proof (rule set_eqI)
  fix c
  show "c \<in> marked P (ts[i := p]) subs \<longleftrightarrow>
        c \<in> (if P p then insert (subs ! i) (marked P ts subs) else marked P ts subs)"
  proof
    assume "c \<in> marked P (ts[i := p]) subs"
    then obtain j where j: "j < length subs" "c = subs ! j" "P ((ts[i := p]) ! j)"
      by (auto simp: marked_def)
    show "c \<in> (if P p then insert (subs ! i) (marked P ts subs) else marked P ts subs)"
    proof (cases "j = i")
      case True
      with j assms show ?thesis by simp
    next
      case False
      with j have "c \<in> marked P ts subs" by (auto simp: marked_def)
      then show ?thesis by simp
    qed
  next
    assume r: "c \<in> (if P p then insert (subs ! i) (marked P ts subs) else marked P ts subs)"
    have here: "P p \<Longrightarrow> subs ! i \<in> marked P (ts[i := p]) subs"
      using assms(1,2) by (auto simp: marked_def intro!: exI[of _ i])
    have keep: "c \<in> marked P ts subs \<Longrightarrow> c \<in> marked P (ts[i := p]) subs"
    proof -
      assume "c \<in> marked P ts subs"
      then obtain j where j: "j < length subs" "c = subs ! j" "P (ts ! j)"
        by (auto simp: marked_def)
      have "P ((ts[i := p]) ! j)"
        using j assms by (cases "j = i") simp_all
      with j show ?thesis by (auto simp: marked_def)
    qed
    from r here keep show "c \<in> marked P (ts[i := p]) subs"
      by (auto split: if_splits)
  qed
qed

lemma marked_all:
  assumes "length ts = length subs" and "list_all P ts"
  shows "marked P ts subs = set subs"
proof (rule set_eqI)
  fix c
  show "c \<in> marked P ts subs \<longleftrightarrow> c \<in> set subs"
  proof
    assume "c \<in> marked P ts subs"
    then show "c \<in> set subs" by (auto simp: marked_def)
  next
    assume "c \<in> set subs"
    then obtain j where j: "j < length subs" "subs ! j = c"
      by (auto simp: in_set_conv_nth)
    with assms have "P (ts ! j)" by (simp add: list_all_length)
    with j show "c \<in> marked P ts subs" unfolding marked_def by blast
  qed
qed

lemma inv_initial: "inv self net subs (initial self subs)"
  by (auto simp: inv_def initial_def marked_def past_dns_def)

lemma invI:
  assumes "length (tasks t) = length subs"
    and "\<And>j. j < length subs \<Longrightarrow> tasks t ! j = Resolved \<Longrightarrow> dns_resolves self net (subs ! j)"
    and "dns_resolved t = marked past_dns (tasks t) subs \<inter> Collect (dns_resolves self net)"
    and "https_alive t = marked is_done (tasks t) subs \<inter> Collect (https_answers self net)"
  shows "inv self net subs t"
  using assms by (simp add: inv_def)

lemma check_subdomain_fields:
  assumes "check_subdomain self net c p s = Some (p', s')"
  shows "p = Waiting \<and> p' = Acquired \<and> dns_resolved s' = dns_resolved s
            \<and> https_alive s' = https_alive s
       \<or> p = Acquired \<and> p' = Resolved \<and> dns_resolves self net c
            \<and> dns_resolved s' = insert c (dns_resolved s) \<and> https_alive s' = https_alive s
       \<or> p = Acquired \<and> is_done p' \<and> \<not> dns_resolves self net c
            \<and> dns_resolved s' = dns_resolved s \<and> https_alive s' = https_alive s
       \<or> p = Resolved \<and> is_done p' \<and> check_https self net c = Inr True
            \<and> dns_resolved s' = dns_resolved s \<and> https_alive s' = insert c (https_alive s)
       \<or> p = Resolved \<and> is_done p' \<and> check_https self net c \<noteq> Inr True
            \<and> dns_resolved s' = dns_resolved s \<and> https_alive s' = https_alive s"
proof (cases p)
  case Waiting
  with assms show ?thesis by (auto split: if_splits)
next
  case Acquired
  with assms show ?thesis
    by (cases "fst (resolve_dns self net c)")
       (auto simp: release_def dns_resolves_def split: if_splits)
next
  case Resolved
  with assms show ?thesis
    by (cases "check_https self net c") (auto simp: release_def split: if_splits)
next
  case (Done r)
  with assms show ?thesis by simp
qed

lemma check_subdomain_cases [consumes 1, case_names acquire resolved unresolved alive dead]:
  assumes "check_subdomain self net c p s = Some (p', s')"
  obtains
    (acquire) "p = Waiting" "p' = Acquired" "dns_resolved s' = dns_resolved s"
      "https_alive s' = https_alive s"
  | (resolved) "p = Acquired" "p' = Resolved" "dns_resolves self net c"
      "dns_resolved s' = insert c (dns_resolved s)" "https_alive s' = https_alive s"
  | (unresolved) "p = Acquired" "is_done p'" "\<not> dns_resolves self net c"
      "dns_resolved s' = dns_resolved s" "https_alive s' = https_alive s"
  | (alive) "p = Resolved" "is_done p'" "check_https self net c = Inr True"
      "dns_resolved s' = dns_resolved s" "https_alive s' = insert c (https_alive s)"
  | (dead) "p = Resolved" "is_done p'" "check_https self net c \<noteq> Inr True"
      "dns_resolved s' = dns_resolved s" "https_alive s' = https_alive s"
  using check_subdomain_fields [OF assms]
  apply (elim disjE conjE)
  subgoal by (rule that(1))
  subgoal by (rule that(2))
  subgoal by (rule that(3))
  subgoal by (rule that(4))
  subgoal by (rule that(5))
  done

lemma inv_step:
  assumes "step self net subs s t" and "inv self net subs s"
  shows "inv self net subs t"
  using assms(1)
proof (cases rule: step.cases)
  case (run_task i p' s')
  from assms(2) have len: "length (tasks s) = length subs"
    and res: "\<And>j. j < length subs \<Longrightarrow> tasks s ! j = Resolved \<Longrightarrow> dns_resolves self net (subs ! j)"
    and dns: "dns_resolved s = marked past_dns (tasks s) subs \<inter> Collect (dns_resolves self net)"
    and alive: "https_alive s = marked is_done (tasks s) subs \<inter> Collect (https_answers self net)"
    by (simp_all add: inv_def)
  note upd = marked_update [OF run_task(2) len]
  have tt: "tasks t = (tasks s)[i := p']" and td: "dns_resolved t = dns_resolved s'"
    and ta: "https_alive t = https_alive s'"
    using run_task(1) by simp_all
  have tlen: "length (tasks t) = length subs" using tt len by simp
  from run_task(4) show ?thesis
  proof (cases rule: check_subdomain_cases)
    case acquire
    have m1: "marked past_dns (tasks t) subs = marked past_dns (tasks s) subs"
      unfolding tt using upd [of past_dns p'] acquire by (simp add: past_dns_def)
    have m2: "marked is_done (tasks t) subs = marked is_done (tasks s) subs"
      unfolding tt using upd [of is_done p'] acquire by simp
    show ?thesis
    proof (rule invI [OF tlen])
      fix j assume "j < length subs" "tasks t ! j = Resolved"
      then show "dns_resolves self net (subs ! j)"
        using res [of j] acquire len unfolding tt by (cases "j = i") simp_all
    qed (simp_all add: m1 m2 td ta acquire dns alive)
  next
    case resolved
    have m1: "marked past_dns (tasks t) subs = insert (subs ! i) (marked past_dns (tasks s) subs)"
      unfolding tt using upd [of past_dns p'] resolved by (simp add: past_dns_def)
    have m2: "marked is_done (tasks t) subs = marked is_done (tasks s) subs"
      unfolding tt using upd [of is_done p'] resolved by simp
    show ?thesis
    proof (rule invI [OF tlen])
      fix j assume "j < length subs" "tasks t ! j = Resolved"
      then show "dns_resolves self net (subs ! j)"
        using res [of j] resolved len unfolding tt by (cases "j = i") simp_all
    next
      show "dns_resolved t = marked past_dns (tasks t) subs \<inter> Collect (dns_resolves self net)"
        using resolved(3) by (simp add: m1 td resolved(4) dns)
    qed (simp add: m2 ta resolved alive)
  next
    case unresolved
    have m1: "marked past_dns (tasks t) subs = insert (subs ! i) (marked past_dns (tasks s) subs)"
      unfolding tt using upd [of past_dns p'] unresolved by (simp add: past_dns_def)
    have m2: "marked is_done (tasks t) subs = insert (subs ! i) (marked is_done (tasks s) subs)"
      unfolding tt using upd [of is_done p'] unresolved by simp
    show ?thesis
    proof (rule invI [OF tlen])
      fix j assume "j < length subs" "tasks t ! j = Resolved"
      then show "dns_resolves self net (subs ! j)"
        using res [of j] unresolved len unfolding tt by (cases "j = i") auto
    next
      show "dns_resolved t = marked past_dns (tasks t) subs \<inter> Collect (dns_resolves self net)"
        using unresolved(3) by (simp add: m1 td unresolved(4) dns)
    next
      show "https_alive t = marked is_done (tasks t) subs \<inter> Collect (https_answers self net)"
        using unresolved(3) by (simp add: m2 ta unresolved(5) alive https_answers_def)
    qed
  next
    case alive
    have r: "dns_resolves self net (subs ! i)" using res [OF run_task(2) alive(1)] .
    have old: "subs ! i \<in> marked past_dns (tasks s) subs"
      using run_task(2) alive(1) by (auto simp: marked_def past_dns_def)
    have m1: "marked past_dns (tasks t) subs = marked past_dns (tasks s) subs"
      unfolding tt using upd [of past_dns p'] alive old by (auto simp: past_dns_def)
    have m2: "marked is_done (tasks t) subs = insert (subs ! i) (marked is_done (tasks s) subs)"
      unfolding tt using upd [of is_done p'] alive by simp
    show ?thesis
    proof (rule invI [OF tlen])
      fix j assume "j < length subs" "tasks t ! j = Resolved"
      then show "dns_resolves self net (subs ! j)"
        using res [of j] alive len unfolding tt by (cases "j = i") auto
    next
      show "dns_resolved t = marked past_dns (tasks t) subs \<inter> Collect (dns_resolves self net)"
        by (simp add: m1 td alive(4) dns)
    next
      show "https_alive t = marked is_done (tasks t) subs \<inter> Collect (https_answers self net)"
        using r alive(3) by (simp add: m2 ta alive(5) \<open>https_alive s = _\<close> https_answers_def)
    qed
  next
    case dead
    have old: "subs ! i \<in> marked past_dns (tasks s) subs"
      using run_task(2) dead(1) by (auto simp: marked_def past_dns_def)
    have m1: "marked past_dns (tasks t) subs = marked past_dns (tasks s) subs"
      unfolding tt using upd [of past_dns p'] dead old by (auto simp: past_dns_def)
    have m2: "marked is_done (tasks t) subs = insert (subs ! i) (marked is_done (tasks s) subs)"
      unfolding tt using upd [of is_done p'] dead by simp
    show ?thesis
    proof (rule invI [OF tlen])
      fix j assume "j < length subs" "tasks t ! j = Resolved"
      then show "dns_resolves self net (subs ! j)"
        using res [of j] dead len unfolding tt by (cases "j = i") auto
    next
      show "dns_resolved t = marked past_dns (tasks t) subs \<inter> Collect (dns_resolves self net)"
        by (simp add: m1 td dead(4) dns)
    next
      show "https_alive t = marked is_done (tasks t) subs \<inter> Collect (https_answers self net)"
        using dead(3) by (simp add: m2 ta dead(5) alive https_answers_def)
    qed
  qed
qed

lemma inv_reachable:
  assumes "rtranclp (step self net subs) (initial self subs) s"
  shows "inv self net subs s"
  using assms by (induction rule: rtranclp_induct) (auto intro: inv_initial inv_step)

lemma final_sets:
  assumes "rtranclp (step self net subs) (initial self subs) s" and "all_done s"
  shows "dns_resolved s = {c \<in> set subs. dns_resolves self net c}"
    and "https_alive s = {c \<in> set subs. https_answers self net c}"
proof -
  from inv_reachable [OF assms(1)]
  have len: "length (tasks s) = length subs"
    and dns: "dns_resolved s = marked past_dns (tasks s) subs \<inter> Collect (dns_resolves self net)"
    and alive: "https_alive s = marked is_done (tasks s) subs \<inter> Collect (https_answers self net)"
    by (simp_all add: inv_def)
  from assms(2) have d: "list_all is_done (tasks s)" by (simp add: all_done_def)
  then have p: "list_all past_dns (tasks s)" by (simp add: list_all_iff past_dns_def)
  show "dns_resolved s = {c \<in> set subs. dns_resolves self net c}"
    unfolding dns marked_all [OF len p] by blast
  show "https_alive s = {c \<in> set subs. https_answers self net c}"
    unfolding alive marked_all [OF len d] by blast
qed

text \<open>Progress: every move takes a task one point further, the semaphore's value plus
  the number of tasks holding it stays the concurrency, and with a positive concurrency
  a state with an unfinished task has a move. So every run of the loop is finite and can
  only end with all tasks done.\<close>

lemma check_subdomain_moves:
  assumes "check_subdomain self net c p s = Some (p', s')"
  shows "sem_value s' + in_flight p' = sem_value s + in_flight p"
    and "remaining p' < remaining p" and "tasks s' = tasks s"
proof -
  have "sem_value s' + in_flight p' = sem_value s + in_flight p
      \<and> remaining p' < remaining p \<and> tasks s' = tasks s"
  proof (cases p)
    case Waiting
    with assms show ?thesis by (auto split: if_splits)
  next
    case Acquired
    with assms show ?thesis
      by (cases "fst (resolve_dns self net c)") (auto simp: release_def split: if_splits)
  next
    case Resolved
    with assms show ?thesis
      by (cases "check_https self net c") (auto simp: release_def split: if_splits)
  next
    case (Done r)
    with assms show ?thesis by simp
  qed
  then show "sem_value s' + in_flight p' = sem_value s + in_flight p"
    and "remaining p' < remaining p" and "tasks s' = tasks s" by simp_all
qed

lemma sum_list_map_update_int:
  fixes f :: "'a \<Rightarrow> int"
  assumes "i < length xs"
  shows "sum_list (map f (xs[i := y])) = sum_list (map f xs) + f y - f (xs ! i)"
  using assms by (induction xs arbitrary: i) (auto split: nat.splits)

lemma sum_list_map_update_nat:
  fixes f :: "'a \<Rightarrow> nat"
  assumes "i < length xs"
  shows "sum_list (map f (xs[i := y])) + f (xs ! i) = sum_list (map f xs) + f y"
  using assms by (induction xs arbitrary: i) (auto split: nat.splits)

lemma sem_step:
  assumes "step self net subs s t"
  shows "sem_value t + sum_list (map in_flight (tasks t))
           = sem_value s + sum_list (map in_flight (tasks s))
       \<and> sum_list (map remaining (tasks t)) < sum_list (map remaining (tasks s))
       \<and> length (tasks t) = length (tasks s)"
  using assms
proof (cases rule: step.cases)
  case (run_task i p' s')
  note m = check_subdomain_moves [OF run_task(4)]
  have a: "sem_value t + sum_list (map in_flight (tasks t))
           = sem_value s + sum_list (map in_flight (tasks s))"
    using run_task(1,3) m(1) m(3) by (simp add: sum_list_map_update_int)
  have b: "sum_list (map remaining (tasks t)) < sum_list (map remaining (tasks s))"
    using run_task(1,3) m(2) sum_list_map_update_nat [of i "tasks s" remaining p']
    by simp
  have c: "length (tasks t) = length (tasks s)" using run_task(1) by simp
  from a b c show ?thesis by simp
qed

lemma sem_reachable:
  assumes "rtranclp (step self net subs) (initial self subs) s"
  shows "sem_value s + sum_list (map in_flight (tasks s)) = concurrency self
       \<and> length (tasks s) = length subs"
  using assms
proof (induction rule: rtranclp_induct)
  case base
  have "sum_list (map in_flight (map (\<lambda>c. Waiting) subs)) = 0"
    by (induction subs) simp_all
  then show ?case by (simp add: initial_def)
next
  case (step y z)
  with sem_step [OF step(2)] show ?case by simp
qed

lemma progress:
  assumes "rtranclp (step self net subs) (initial self subs) s"
    and "0 < concurrency self" and "\<not> all_done s"
  shows "\<exists>t. step self net subs s t"
proof -
  from sem_reachable [OF assms(1)]
  have sem: "sem_value s + sum_list (map in_flight (tasks s)) = concurrency self"
    and len: "length (tasks s) = length subs" by simp_all
  have can: "\<exists>t. step self net subs s t"
    if i: "i < length subs" and m: "check_subdomain self net (subs ! i) (tasks s ! i) s = Some (p', s')"
    for i p' s'
    using step.run_task [OF i _ m] i len by auto
  show ?thesis
  proof (cases "\<exists>i<length subs. in_flight (tasks s ! i) = 1")
    case True
    then obtain i where i: "i < length subs" and f: "in_flight (tasks s ! i) = 1" by blast
    have "\<exists>p' s'. check_subdomain self net (subs ! i) (tasks s ! i) s = Some (p', s')"
    proof (cases "tasks s ! i")
      case Acquired
      then show ?thesis
        by (cases "fst (resolve_dns self net (subs ! i))") simp_all
    next
      case Resolved
      then show ?thesis
        by (cases "check_https self net (subs ! i)") simp_all
    qed (use f in simp_all)
    with can [OF i] show ?thesis by blast
  next
    case False
    have z: "in_flight p = 0" if "p \<in> set (tasks s)" for p
    proof -
      from that obtain i where "i < length (tasks s)" "tasks s ! i = p"
        by (auto simp: in_set_conv_nth)
      with False len show ?thesis by (cases p) auto
    qed
    have "(\<forall>p \<in> set ts. in_flight p = 0) \<Longrightarrow> sum_list (map in_flight ts) = 0" for ts
      by (induction ts) simp_all
    with z have "sum_list (map in_flight (tasks s)) = 0" by blast
    with sem assms(2) have v: "0 < sem_value s" by simp
    from assms(3) obtain i where i: "i < length (tasks s)" and nd: "\<not> is_done (tasks s ! i)"
      by (auto simp: all_done_def list_all_length)
    from z [OF nth_mem [OF i]] nd have "tasks s ! i = Waiting"
      by (cases "tasks s ! i") auto
    with v have "\<exists>p' s'. check_subdomain self net (subs ! i) (tasks s ! i) s = Some (p', s')"
      by simp
    with can [of i] i len show ?thesis by auto
  qed
qed

lemma completes:
  assumes "rtranclp (step self net subs) (initial self subs) s" and "0 < concurrency self"
  shows "\<exists>t. rtranclp (step self net subs) s t \<and> all_done t"
  using assms(1)
proof (induction "sum_list (map remaining (tasks s))" arbitrary: s rule: less_induct)
  case less
  show ?case
  proof (cases "all_done s")
    case True
    then show ?thesis by blast
  next
    case False
    from progress [OF less.prems assms(2) False] obtain t where t: "step self net subs s t"
      by blast
    from sem_step [OF t] have d: "sum_list (map remaining (tasks t)) < sum_list (map remaining (tasks s))"
      by simp
    from less.prems t have r: "rtranclp (step self net subs) (initial self subs) t" by auto
    from less.hyps [OF d r] obtain u where "rtranclp (step self net subs) t u" "all_done u"
      by blast
    with t show ?thesis by (meson converse_rtranclp_into_rtranclp)
  qed
qed

lemma scan_returns:
  assumes "0 < concurrency self"
  shows "scan_subdomains self net subs
           (self, Inr ({c \<in> set subs. https_answers self net c},
                       {c \<in> set subs. dns_resolves self net c}))"
proof -
  have "rtranclp (step self net subs) (initial self subs) (initial self subs)" by simp
  from completes [OF this assms] obtain t
    where t: "rtranclp (step self net subs) (initial self subs) t" "all_done t" by blast
  have "scan_subdomains self net subs (self, Inr (https_alive t, dns_resolved t))"
    using assms t by (intro scan_subdomains.gathered) simp_all
  then show ?thesis by (simp add: final_sets [OF t])
qed

lemma scan_outcome:
  assumes "scan_subdomains self net subs (self', out)"
  shows "self' = self"
    and "concurrency self < 0 \<Longrightarrow> out = Inl ValueError"
    and "0 \<le> concurrency self \<Longrightarrow>
           out = Inr ({c \<in> set subs. https_answers self net c},
                      {c \<in> set subs. dns_resolves self net c})"
  using assms by (auto elim!: scan_subdomains.cases simp: final_sets)

lemma stuck_at_zero:
  assumes "concurrency self = 0"
    and "rtranclp (step self net subs) (initial self subs) s"
  shows "s = initial self subs"
  using assms(2)
proof (induction rule: rtranclp_induct)
  case base
  show ?case by simp
next
  case (step y z)
  from step(2) show ?case unfolding step(3)
    by (cases rule: step.cases) (auto simp: initial_def assms(1))
qed

lemma marked_mono:
  assumes "\<And>p. P p \<Longrightarrow> Q p"
  shows "marked P ts subs \<subseteq> marked Q ts subs"
  using assms by (auto simp: marked_def)

lemma inv_subset:
  assumes "inv self net subs s"
  shows "https_alive s \<subseteq> dns_resolved s"
proof -
  have "marked is_done (tasks s) subs \<subseteq> marked past_dns (tasks s) subs"
    by (rule marked_mono) (simp add: past_dns_def)
  moreover have "Collect (https_answers self net) \<subseteq> Collect (dns_resolves self net)"
    by (auto simp: https_answers_def)
  ultimately show ?thesis using assms unfolding inv_def by blast
qed

lemma scan_empty:
  assumes "0 \<le> concurrency self"
  shows "scan_subdomains self net [] (self, Inr ({}, {}))"
proof -
  have "scan_subdomains self net []
          (self, Inr (https_alive (initial self []), dns_resolved (initial self [])))"
    using assms by (intro scan_subdomains.gathered) (simp_all add: all_done_def initial_def)
  then show ?thesis by (simp add: initial_def)
qed

lemma scan_error_negative:
  assumes "scan_subdomains self net subs (self', Inl e)"
  shows "concurrency self < 0"
  using assms by (cases rule: scan_subdomains.cases) simp_all

text \<open>With concurrency 0 no task ever acquires the semaphore: the scan of a non-empty
  list has no outcome at all.\<close>

lemma no_outcome_at_zero:
  assumes "concurrency self = 0" and "subs \<noteq> []"
  shows "\<not> scan_subdomains self net subs out"
proof
  assume "scan_subdomains self net subs out"
  then show False
  proof (cases rule: scan_subdomains.cases)
    case semaphore_raises
    with assms(1) show ?thesis by simp
  next
    case (gathered s)
    from stuck_at_zero [OF assms(1) gathered(3)] gathered(4) assms(2) show ?thesis
      by (cases subs) (simp_all add: all_done_def initial_def)
  qed
qed

subsection \<open>The example network\<close>

lemma example_resolves:
  "dns_resolves self example_net c \<longleftrightarrow> c = ''api.example.com'' \<or> c = ''old.example.com''"
  by (simp add: dns_resolves_iff succeeded_def example_net_def)

lemma example_https:
  "check_https self example_net c =
     (if c = ''api.example.com'' then Inr True
      else if c = ''cname.example.com'' then Inl ValueError else Inr False)"
  by (simp add: check_https_def example_net_def handles_def isinstance_def Let_def)

lemma example_answers: "https_answers self example_net c \<longleftrightarrow> c = ''api.example.com''"
  by (auto simp: https_answers_def example_resolves example_https)

lemma example_raises: "check_raises self example_net ''cname.example.com''"
  by (simp add: check_raises_def resolve_dns_code succeeded_def example_net_def)

lemma example_scan2:
  assumes "0 < concurrency self"
  shows "scan_subdomains self example_net [''api.example.com'', ''old.example.com'']
           (self, Inr ({''api.example.com''}, {''api.example.com'', ''old.example.com''}))"
proof -
  let ?subs = "[''api.example.com'', ''old.example.com'']"
  have a: "{c \<in> set ?subs. https_answers self example_net c} = {''api.example.com''}"
    by (auto simp: example_answers)
  have r: "{c \<in> set ?subs. dns_resolves self example_net c}
             = {''api.example.com'', ''old.example.com''}"
    by (auto simp: example_resolves)
  show ?thesis using scan_returns [OF assms, of example_net ?subs] unfolding a r .
qed

lemma example_scan3:
  assumes "0 < concurrency self"
  shows "scan_subdomains self example_net
           [''api.example.com'', ''cname.example.com'', ''old.example.com'']
           (self, Inr ({''api.example.com''}, {''api.example.com'', ''old.example.com''}))"
proof -
  let ?subs = "[''api.example.com'', ''cname.example.com'', ''old.example.com'']"
  have a: "{c \<in> set ?subs. https_answers self example_net c} = {''api.example.com''}"
    by (auto simp: example_answers)
  have r: "{c \<in> set ?subs. dns_resolves self example_net c}
             = {''api.example.com'', ''old.example.com''}"
    by (auto simp: example_resolves)
  show ?thesis using scan_returns [OF assms, of example_net ?subs] unfolding a r .
qed

section \<open>The claims\<close>

subsection \<open>C1: HTTPS-alive candidates are DNS-resolved\<close>

text \<open>C1. In every state the event loop of \<open>scan_subdomains\<close> reaches, and so in every
  pair it returns, the set \<open>https_alive\<close> is a subset of the set \<open>dns_resolved\<close>: a
  candidate is added to \<open>https_alive\<close> only after it was added to \<open>dns_resolved\<close> in the
  same invocation.\<close>

theorem https_alive_subset_dns_resolved:
  "(rtranclp (step self net subdomains) (initial self subdomains) s
      \<longrightarrow> https_alive s \<subseteq> dns_resolved s)
   \<and> (scan_subdomains self net subdomains (self', Inr (alive, resolved))
      \<longrightarrow> alive \<subseteq> resolved)"
proof (intro conjI impI)
  assume "rtranclp (step self net subdomains) (initial self subdomains) s"
  then show "https_alive s \<subseteq> dns_resolved s"
    by (intro inv_subset inv_reachable)
next
  assume "scan_subdomains self net subdomains (self', Inr (alive, resolved))"
  then show "alive \<subseteq> resolved"
  proof (cases rule: scan_subdomains.cases)
    case (gathered t)
    then show ?thesis using inv_subset [OF inv_reachable, of self net subdomains t] by simp
  qed
qed

theorem https_alive_subset_dns_resolved_witness:
  "scan_subdomains (SubdomainScanner 20 5) example_net
     [''api.example.com'', ''cname.example.com'', ''old.example.com'']
     (SubdomainScanner 20 5, Inr ({''api.example.com''},
         {''api.example.com'', ''old.example.com''}))
   \<and> {''api.example.com''} \<subseteq> {''api.example.com'', ''old.example.com''}"
proof -
  let ?S = "SubdomainScanner 20 5"
  let ?subs = "[''api.example.com'', ''cname.example.com'', ''old.example.com'']"
  have h: "scan_subdomains ?S example_net ?subs
     (?S, Inr ({''api.example.com''}, {''api.example.com'', ''old.example.com''}))"
    by (rule example_scan3) (simp add: SubdomainScanner_def)
  from https_alive_subset_dns_resolved [of ?S example_net ?subs "initial ?S ?subs"] h
  show ?thesis by blast
qed

subsection \<open>C2: the order of the returned pair\<close>

text \<open>C2 as stated fails. With \<^verbatim>\<open>api.example.com\<close> resolving and answering HTTPS, and
  \<^verbatim>\<open>old.example.com\<close> resolving only, the scan returns the pair whose first component
  is \<^verbatim>\<open>{api.example.com}\<close>: the DNS-resolved candidate \<^verbatim>\<open>old.example.com\<close> is not in
  the first component.\<close>

theorem scan_pair_order_counterexample:
  "scan_subdomains (SubdomainScanner 20 5) example_net [''api.example.com'', ''old.example.com'']
     (SubdomainScanner 20 5, Inr ({''api.example.com''}, {''api.example.com'', ''old.example.com''}))
   \<and> dns_resolves (SubdomainScanner 20 5) example_net ''old.example.com''
   \<and> ''old.example.com'' \<notin> fst ({''api.example.com''}, {''api.example.com'', ''old.example.com''})"
  using example_scan2 [of "SubdomainScanner 20 5"]
  by (simp add: example_resolves SubdomainScanner_def)

text \<open>C2, amended. Whenever \<open>scan_subdomains\<close> returns a pair, its first component is
  the set of HTTPS-alive candidates and its second component is the set of DNS-resolved
  candidates (the order of line 95, which the caller in handlers.py unpacks in the same
  order). Here a candidate is DNS-resolved when \<open>resolve_dns\<close> returned \<open>True\<close> for it,
  which by \<open>dns_resolves_iff\<close> is when its address lookup succeeded, and HTTPS-alive when
  it is DNS-resolved and \<open>check_https\<close> returned \<open>True\<close> for it.\<close>

theorem scan_returns_alive_then_resolved:
  assumes "scan_subdomains self net subdomains (self', Inr out)"
  shows "fst out = {c \<in> set subdomains. https_answers self net c}
       \<and> snd out = {c \<in> set subdomains. dns_resolves self net c}"
proof -
  from assms have "0 \<le> concurrency self"
    by (cases rule: scan_subdomains.cases) simp_all
  from scan_outcome(3) [OF assms this] show ?thesis by simp
qed

theorem scan_returns_alive_then_resolved_witness:
  "scan_subdomains (SubdomainScanner 20 5) example_net
     [''api.example.com'', ''cname.example.com'', ''old.example.com'']
     (SubdomainScanner 20 5, Inr ({''api.example.com''}, {''api.example.com'', ''old.example.com''}))
   \<and> {''api.example.com''}
       = {c \<in> set [''api.example.com'', ''cname.example.com'', ''old.example.com''].
            https_answers (SubdomainScanner 20 5) example_net c}
   \<and> {''api.example.com'', ''old.example.com''}
       = {c \<in> set [''api.example.com'', ''cname.example.com'', ''old.example.com''].
            dns_resolves (SubdomainScanner 20 5) example_net c}"
proof -
  have h: "scan_subdomains (SubdomainScanner 20 5) example_net
     [''api.example.com'', ''cname.example.com'', ''old.example.com'']
     (SubdomainScanner 20 5, Inr ({''api.example.com''}, {''api.example.com'', ''old.example.com''}))"
    by (rule example_scan3) (simp add: SubdomainScanner_def)
  from scan_returns_alive_then_resolved [OF h, unfolded fst_conv snd_conv] h
  show ?thesis by blast
qed

subsection \<open>C3: every candidate is a proper subdomain\<close>

text \<open>C3 as stated fails. The domain \<^verbatim>\<open>www.example.com\<close> satisfies the Domain invariant;
  its candidates in mode \<^verbatim>\<open>normal\<close> include \<^verbatim>\<open>mail.example.com\<close>, which does not end
  with \<^verbatim>\<open>.www.example.com\<close>, and include \<^verbatim>\<open>www.example.com\<close> itself.\<close>

theorem candidates_suffix_counterexample:
  "domain_invariant ''www.example.com''
   \<and> ''mail.example.com'' \<in> generate_candidates ''www.example.com'' ''normal''
   \<and> \<not> suffix (''.'' @ ''www.example.com'') ''mail.example.com''
   \<and> ''www.example.com'' \<in> generate_candidates ''www.example.com'' ''normal''"
  by (simp add: domain_invariant_def is_lower_def is_digit_def Let_def generate_candidates_def
      strip_www_def startswith_def base_candidates_def suffix_Cons)

text \<open>C3, amended. For every domain string \<open>d\<close> (whether or not it satisfies the Domain
  invariant) and every mode string \<open>m\<close>, every string in \<open>generate_candidates d m\<close> ends
  with a dot followed by \<open>strip_www d\<close>, the domain without one leading \<^verbatim>\<open>www.\<close>, and
  \<open>strip_www d\<close> itself is never an element of the result. When \<open>d\<close> does not start with
  \<^verbatim>\<open>www.\<close>, this is the claim for \<open>d\<close> itself.\<close>

theorem candidates_end_with_stripped_domain:
  assumes "c \<in> generate_candidates d m"
  shows "suffix (''.'' @ strip_www d) c \<and> strip_www d \<notin> generate_candidates d m
       \<and> (\<not> startswith d ''www.'' \<longrightarrow> suffix (''.'' @ d) c \<and> d \<notin> generate_candidates d m)"
proof -
  have a: "suffix (''.'' @ strip_www d) c" using assms by (rule suffix_dot_generate)
  have b: "strip_www d \<notin> generate_candidates d m"
  proof
    assume "strip_www d \<in> generate_candidates d m"
    then have "suffix (''.'' @ strip_www d) (strip_www d)" by (rule suffix_dot_generate)
    then show False using suffix_Cons_neq [of "CHR ''.''" "strip_www d" "strip_www d"] by simp
  qed
  have c: "\<not> startswith d ''www.'' \<Longrightarrow> strip_www d = d" by (simp add: strip_www_def)
  from a b c show ?thesis by auto
qed

theorem candidates_end_with_stripped_domain_witness:
  "''api.example.com'' \<in> generate_candidates ''example.com'' ''normal''
   \<and> \<not> startswith ''example.com'' ''www.''
   \<and> suffix (''.'' @ ''example.com'') ''api.example.com''
   \<and> ''example.com'' \<notin> generate_candidates ''example.com'' ''normal''"
proof -
  have h: "''api.example.com'' \<in> generate_candidates ''example.com'' ''normal''"
    by (simp add: generate_candidates_def Let_def strip_www_def startswith_def base_candidates_def)
  have n: "\<not> startswith ''example.com'' ''www.''" by (simp add: startswith_def)
  from candidates_end_with_stripped_domain [OF h] h n show ?thesis by blast
qed

subsection \<open>C4: which concurrency values are rejected\<close>

text \<open>C4 as stated fails at concurrency 0: the scan of one candidate does not fail with
  the error of the semaphore, and the scan of no candidate returns two empty sets.\<close>

theorem scan_zero_concurrency_counterexample:
  "\<not> scan_subdomains (SubdomainScanner 0 5) example_net [''api.example.com'']
       (SubdomainScanner 0 5, Inl ValueError)
   \<and> scan_subdomains (SubdomainScanner 0 5) example_net [] (SubdomainScanner 0 5, Inr ({}, {}))"
proof
  show "\<not> scan_subdomains (SubdomainScanner 0 5) example_net [''api.example.com'']
       (SubdomainScanner 0 5, Inl ValueError)"
    using scan_error_negative [of "SubdomainScanner 0 5" example_net "[''api.example.com'']"
        "SubdomainScanner 0 5" ValueError]
    by (auto simp: SubdomainScanner_def)
  show "scan_subdomains (SubdomainScanner 0 5) example_net [] (SubdomainScanner 0 5, Inr ({}, {}))"
    by (rule scan_empty) (simp add: SubdomainScanner_def)
qed

text \<open>C4, amended. For a scanner constructed with concurrency \<open>c\<close> and timeout \<open>t\<close>: if
  \<open>c < 0\<close>, \<open>scan_subdomains\<close> fails with the \<open>ValueError\<close> of the semaphore, whatever the
  candidates and the network (no task has moved), and has no other outcome; if \<open>0 < c\<close>,
  for any timeout, the call is accepted: it returns a pair of sets and raises nothing; at
  \<open>c = 0\<close> nothing is raised either.\<close>

theorem scan_concurrency_acceptance:
  "(c < 0 \<longrightarrow>
      scan_subdomains (SubdomainScanner c t) net subdomains (SubdomainScanner c t, Inl ValueError)
      \<and> (\<forall>out. scan_subdomains (SubdomainScanner c t) net subdomains out
            \<longrightarrow> out = (SubdomainScanner c t, Inl ValueError)))
   \<and> (0 < c \<longrightarrow>
      (\<exists>alive resolved. scan_subdomains (SubdomainScanner c t) net subdomains
         (SubdomainScanner c t, Inr (alive, resolved)))
      \<and> (\<forall>self' e. \<not> scan_subdomains (SubdomainScanner c t) net subdomains (self', Inl e)))
   \<and> (c = 0 \<longrightarrow>
      (\<forall>self' e. \<not> scan_subdomains (SubdomainScanner c t) net subdomains (self', Inl e)))"
proof -
  let ?S = "SubdomainScanner c t"
  have conc: "concurrency ?S = c" by (simp add: SubdomainScanner_def)
  have neg: "c < 0 \<Longrightarrow> scan_subdomains ?S net subdomains (?S, Inl ValueError)"
    by (rule scan_subdomains.semaphore_raises) (simp add: conc)
  have only: "c < 0 \<Longrightarrow> scan_subdomains ?S net subdomains out \<Longrightarrow> out = (?S, Inl ValueError)"
    for out
  proof -
    assume c: "c < 0" and o: "scan_subdomains ?S net subdomains out"
    obtain self' r where out: "out = (self', r)" by (cases out)
    from o have "self' = ?S" "r = Inl ValueError"
      unfolding out using scan_outcome(1,2) [of ?S net subdomains self' r] c
      by (simp_all add: conc)
    then show ?thesis by (simp add: out)
  qed
  have pos: "0 < c \<Longrightarrow>
      \<exists>alive resolved. scan_subdomains ?S net subdomains (?S, Inr (alive, resolved))"
    using scan_returns [of ?S net subdomains] by (auto simp: conc)
  have noerr: "0 \<le> c \<Longrightarrow> \<not> scan_subdomains ?S net subdomains (self', Inl e)" for self' e
    using scan_error_negative [of ?S net subdomains self' e] by (auto simp: conc)
  from neg only pos noerr show ?thesis by (simp (no_asm_simp)) blast
qed

theorem scan_concurrency_acceptance_witness:
  "scan_subdomains (SubdomainScanner (- 1) 5) example_net [''api.example.com'']
     (SubdomainScanner (- 1) 5, Inl ValueError)
   \<and> (\<exists>alive resolved. scan_subdomains (SubdomainScanner 20 5) example_net [''api.example.com'']
         (SubdomainScanner 20 5, Inr (alive, resolved)))
   \<and> \<not> scan_subdomains (SubdomainScanner 20 5) example_net [''api.example.com'']
         (SubdomainScanner 20 5, Inl ValueError)"
  using scan_concurrency_acceptance [of "- 1" 5 example_net "[''api.example.com'']"]
    scan_concurrency_acceptance [of 20 5 example_net "[''api.example.com'']"]
  by simp

subsection \<open>C5: batch isolation\<close>

text \<open>C5. Let the scanner have a positive concurrency (as every scan configuration of the
  data model has) and let the check of candidate \<open>x\<close> raise an exception, in its DNS check
  (as every failed address lookup makes it) or in its HTTPS check. Then the scan
  of any candidate list still returns a pair of sets and raises nothing; whatever moves
  the event loop has made, it can finish all tasks (a raising task is done like any
  other, and releases the semaphore); and every candidate other than \<open>x\<close> is in each
  returned set exactly when it is in the corresponding set returned by the scan of the
  list without \<open>x\<close>.\<close>

theorem batch_isolation:
  assumes "0 < concurrency self" and "check_raises self net x"
  shows "(\<exists>alive resolved. scan_subdomains self net subdomains (self, Inr (alive, resolved)))
       \<and> (\<forall>s. rtranclp (step self net subdomains) (initial self subdomains) s \<longrightarrow>
              (\<exists>t. rtranclp (step self net subdomains) s t \<and> all_done t))
       \<and> (\<forall>self' e. \<not> scan_subdomains self net subdomains (self', Inl e))
       \<and> (\<forall>self1 alive1 resolved1 self2 alive2 resolved2 c.
            scan_subdomains self net subdomains (self1, Inr (alive1, resolved1)) \<longrightarrow>
            scan_subdomains self net (removeAll x subdomains) (self2, Inr (alive2, resolved2)) \<longrightarrow>
            c \<noteq> x \<longrightarrow>
            (c \<in> alive1 \<longleftrightarrow> c \<in> alive2) \<and> (c \<in> resolved1 \<longleftrightarrow> c \<in> resolved2))"
proof (intro conjI allI impI)
  show "\<exists>alive resolved. scan_subdomains self net subdomains (self, Inr (alive, resolved))"
    using scan_returns [OF assms(1), of net subdomains] by blast
next
  fix s
  assume "rtranclp (step self net subdomains) (initial self subdomains) s"
  then show "\<exists>t. rtranclp (step self net subdomains) s t \<and> all_done t"
    using assms(1) by (rule completes)
next
  fix self' e
  show "\<not> scan_subdomains self net subdomains (self', Inl e)"
    using scan_error_negative [of self net subdomains self' e] assms(1) by auto
next
  fix self1 alive1 resolved1 self2 alive2 resolved2 c
  assume s1: "scan_subdomains self net subdomains (self1, Inr (alive1, resolved1))"
    and s2: "scan_subdomains self net (removeAll x subdomains) (self2, Inr (alive2, resolved2))"
    and c: "c \<noteq> x"
  have nn: "0 \<le> concurrency self" using assms(1) by simp
  from scan_outcome(3) [OF s1 nn]
  have a1: "alive1 = {c \<in> set subdomains. https_answers self net c}"
    and r1: "resolved1 = {c \<in> set subdomains. dns_resolves self net c}" by simp_all
  from scan_outcome(3) [OF s2 nn]
  have a2: "alive2 = {c \<in> set (removeAll x subdomains). https_answers self net c}"
    and r2: "resolved2 = {c \<in> set (removeAll x subdomains). dns_resolves self net c}"
    by simp_all
  show "c \<in> alive1 \<longleftrightarrow> c \<in> alive2" using c by (simp add: a1 a2)
  show "c \<in> resolved1 \<longleftrightarrow> c \<in> resolved2" using c by (simp add: r1 r2)
qed

theorem batch_isolation_witness:
  "0 < concurrency (SubdomainScanner 20 5)
   \<and> check_raises (SubdomainScanner 20 5) example_net ''cname.example.com''
   \<and> fst (resolve_dns (SubdomainScanner 20 5) example_net ''cname.example.com'')
        = Inl AttributeError
   \<and> scan_subdomains (SubdomainScanner 20 5) example_net
        [''api.example.com'', ''cname.example.com'', ''old.example.com'']
        (SubdomainScanner 20 5, Inr ({''api.example.com''},
             {''api.example.com'', ''old.example.com''}))
   \<and> scan_subdomains (SubdomainScanner 20 5) example_net
        (removeAll ''cname.example.com''
           [''api.example.com'', ''cname.example.com'', ''old.example.com''])
        (SubdomainScanner 20 5, Inr ({''api.example.com''},
             {''api.example.com'', ''old.example.com''}))
   \<and> (''old.example.com'' \<in> {''api.example.com'', ''old.example.com''}
        \<longleftrightarrow> ''old.example.com'' \<in> {''api.example.com'', ''old.example.com''})
   \<and> (''old.example.com'' \<in> {''api.example.com''} \<longleftrightarrow> ''old.example.com'' \<in> {''api.example.com''})
   \<and> (\<exists>t. rtranclp (step (SubdomainScanner 20 5) example_net
                [''api.example.com'', ''cname.example.com'', ''old.example.com''])
             (initial (SubdomainScanner 20 5)
                [''api.example.com'', ''cname.example.com'', ''old.example.com'']) t
           \<and> all_done t)"
proof -
  let ?S = "SubdomainScanner 20 5"
  let ?subs = "[''api.example.com'', ''cname.example.com'', ''old.example.com'']"
  have p: "0 < concurrency ?S" by (simp add: SubdomainScanner_def)
  have r: "check_raises ?S example_net ''cname.example.com''" by (rule example_raises)
  have e: "fst (resolve_dns ?S example_net ''cname.example.com'') = Inl AttributeError"
    by (simp add: resolve_dns_code succeeded_def example_net_def)
  have s1: "scan_subdomains ?S example_net ?subs
        (?S, Inr ({''api.example.com''}, {''api.example.com'', ''old.example.com''}))"
    by (rule example_scan3 [OF p])
  have s2: "scan_subdomains ?S example_net (removeAll ''cname.example.com'' ?subs)
        (?S, Inr ({''api.example.com''}, {''api.example.com'', ''old.example.com''}))"
    using example_scan2 [OF p] by simp
  have n: "''old.example.com'' \<noteq> ''cname.example.com''" by simp
  note b = batch_isolation [OF p r, of ?subs]
  have i0: "rtranclp (step ?S example_net ?subs) (initial ?S ?subs) (initial ?S ?subs)"
    by simp
  from b i0 have f: "\<exists>t. rtranclp (step ?S example_net ?subs) (initial ?S ?subs) t \<and> all_done t"
    by blast
  from b s1 s2 n
  have m: "(''old.example.com'' \<in> {''api.example.com''} \<longleftrightarrow> ''old.example.com'' \<in> {''api.example.com''})
      \<and> (''old.example.com'' \<in> {''api.example.com'', ''old.example.com''}
        \<longleftrightarrow> ''old.example.com'' \<in> {''api.example.com'', ''old.example.com''})"
    by blast
  from p r e s1 s2 m f show ?thesis by blast
qed

subsection \<open>C6: DNS resolution with CNAME fallback\<close>

text \<open>C6 does not hold of the code. The first handler of \<open>resolve_dns\<close> names
  \<^verbatim>\<open>dns.asyncresolver.Timeout\<close>, which the module does not have, so a failed address
  lookup raises \<open>AttributeError\<close> out of \<open>resolve_dns\<close>: the CNAME lookup that lines 37-42
  attempt is never issued and \<open>False\<close> is never returned. For \<^verbatim>\<open>cname.example.com\<close>,
  whose address lookup gets no answer and whose CNAME lookup would succeed,
  \<open>resolve_dns\<close> issues the address lookup only and raises.\<close>

theorem resolve_dns_failed_lookup_raises:
  "resolve_dns (SubdomainScanner 20 5) example_net ''cname.example.com''
     = (Inl AttributeError, [(''cname.example.com'', RdA)])
   \<and> resolver_resolve example_net (5, 5) ''cname.example.com'' RdA = Inl NoAnswer
   \<and> succeeded (resolver_resolve example_net (5, 5) ''cname.example.com'' RdCNAME)"
  by (simp add: resolve_dns_code succeeded_def example_net_def)

subsection \<open>C7: a leading www. is removed\<close>

text \<open>C7 as stated fails for a domain that itself starts with \<^verbatim>\<open>www.\<close>: only one
  \<^verbatim>\<open>www.\<close> is removed, so \<^verbatim>\<open>www.www.example.com\<close> is expanded as
  \<^verbatim>\<open>www.example.com\<close> and \<^verbatim>\<open>www.example.com\<close> as \<^verbatim>\<open>example.com\<close>.\<close>

theorem www_canonicalization_counterexample:
  "generate_candidates (''www.'' @ ''www.example.com'') ''normal''
     \<noteq> generate_candidates ''www.example.com'' ''normal''"
proof -
  have a: "''mail.www.example.com''
             \<in> generate_candidates (''www.'' @ ''www.example.com'') ''normal''"
    by (simp add: Let_def generate_candidates_def strip_www_def startswith_def base_candidates_def)
  have b: "''mail.www.example.com'' \<notin> generate_candidates ''www.example.com'' ''normal''"
    by (simp add: Let_def generate_candidates_def strip_www_def startswith_def base_candidates_def
      common_layer_def normal_layer_def COMMON_PREFIXES_def ENVIRONMENTS_def)
  show ?thesis using a b by metis
qed

text \<open>C7, amended. For every domain \<open>d\<close> that does not itself start with \<^verbatim>\<open>www.\<close> and
  every mode \<open>m\<close>, \<open>generate_candidates\<close> of \<^verbatim>\<open>www.\<close> followed by \<open>d\<close> equals
  \<open>generate_candidates d m\<close>; in particular for \<^verbatim>\<open>example.com\<close> in mode \<^verbatim>\<open>normal\<close>.\<close>

theorem www_canonicalization:
  assumes "\<not> startswith d ''www.''"
  shows "generate_candidates (''www.'' @ d) m = generate_candidates d m"
proof -
  have "strip_www (''www.'' @ d) = d" by (simp add: strip_www_def startswith_def)
  moreover have "strip_www d = d" using assms by (simp add: strip_www_def)
  ultimately show ?thesis by (simp add: generate_candidates_def)
qed

theorem www_canonicalization_witness:
  "\<not> startswith ''example.com'' ''www.''
   \<and> generate_candidates ''www.example.com'' ''normal''
       = generate_candidates ''example.com'' ''normal''"
proof -
  have n: "\<not> startswith ''example.com'' ''www.''" by (simp add: startswith_def)
  from www_canonicalization [OF n, of "''normal''"] n show ?thesis by simp
qed

subsection \<open>C8: the candidates of example.com in mode normal\<close>

text \<open>C8. \<open>generate_candidates\<close> of \<^verbatim>\<open>example.com\<close> in mode \<^verbatim>\<open>normal\<close> contains
  \<^verbatim>\<open>www.example.com\<close>, \<^verbatim>\<open>api.example.com\<close> and \<^verbatim>\<open>dev-web.example.com\<close>, and does not
  contain \<^verbatim>\<open>example.com\<close>.\<close>

theorem example_com_normal_candidates:
  "''www.example.com'' \<in> generate_candidates ''example.com'' ''normal''
  \<and> ''api.example.com'' \<in> generate_candidates ''example.com'' ''normal''
  \<and> ''dev-web.example.com'' \<in> generate_candidates ''example.com'' ''normal''
  \<and> ''example.com'' \<notin> generate_candidates ''example.com'' ''normal''"
  by (simp add: Let_def generate_candidates_def strip_www_def startswith_def base_candidates_def
      common_layer_def normal_layer_def COMMON_PREFIXES_def ENVIRONMENTS_def)

subsection \<open>C9: what the scan operations do to the configuration\<close>

text \<open>C9 as stated fails: \<open>quick_scan\<close> on the scanner of mode \<^verbatim>\<open>medium\<close> (concurrency
  30) leaves a scanner whose concurrency is 20.\<close>

theorem quick_scan_mutates_counterexample:
  "quick_scan (get_scanner_for_mode ''medium'') example_net []
     ((get_scanner_for_mode ''medium'')\<lparr>concurrency := 20\<rparr>, Inr ({}, {}))
   \<and> concurrency ((get_scanner_for_mode ''medium'')\<lparr>concurrency := 20\<rparr>)
       \<noteq> concurrency (get_scanner_for_mode ''medium'')"
proof
  show "quick_scan (get_scanner_for_mode ''medium'') example_net []
     ((get_scanner_for_mode ''medium'')\<lparr>concurrency := 20\<rparr>, Inr ({}, {}))"
    by (intro quick_scan.quick scan_empty) simp
  show "concurrency ((get_scanner_for_mode ''medium'')\<lparr>concurrency := 20\<rparr>)
       \<noteq> concurrency (get_scanner_for_mode ''medium'')"
    by (simp add: get_scanner_for_mode_def SubdomainScanner_def)
qed

text \<open>C9, amended. \<open>scan_subdomains\<close> leaves every field of the scanner as it was.
  \<open>quick_scan\<close> leaves the timeout (and the resolver's fields) as they were and sets the
  concurrency to 20; for the scanner of mode \<^verbatim>\<open>normal\<close>, whose concurrency is 20 from
  its construction, \<open>quick_scan\<close> leaves the scanner as it was.\<close>

theorem scan_config_frame:
  "(scan_subdomains self net subdomains (self', out) \<longrightarrow> self' = self)
   \<and> (quick_scan self net subdomains (self', out) \<longrightarrow>
        self' = self\<lparr>concurrency := 20\<rparr> \<and> timeout self' = timeout self)
   \<and> (quick_scan (get_scanner_for_mode ''normal'') net subdomains (self', out) \<longrightarrow>
        self' = get_scanner_for_mode ''normal'')"
proof (intro conjI impI)
  assume "scan_subdomains self net subdomains (self', out)"
  then show "self' = self" by (rule scan_outcome(1))
next
  assume "quick_scan self net subdomains (self', out)"
  then have "scan_subdomains (self\<lparr>concurrency := 20\<rparr>) net subdomains (self', out)"
    by (cases rule: quick_scan.cases) simp
  then have "self' = self\<lparr>concurrency := 20\<rparr>" by (rule scan_outcome(1))
  then show "self' = self\<lparr>concurrency := 20\<rparr>" "timeout self' = timeout self" by simp_all
next
  assume "quick_scan (get_scanner_for_mode ''normal'') net subdomains (self', out)"
  then have "scan_subdomains ((get_scanner_for_mode ''normal'')\<lparr>concurrency := 20\<rparr>)
               net subdomains (self', out)"
    by (cases rule: quick_scan.cases) simp
  then have "self' = (get_scanner_for_mode ''normal'')\<lparr>concurrency := 20\<rparr>"
    by (rule scan_outcome(1))
  then show "self' = get_scanner_for_mode ''normal''"
    by (simp add: get_scanner_for_mode_def SubdomainScanner_def)
qed

theorem scan_config_frame_witness:
  "quick_scan (get_scanner_for_mode ''medium'') example_net []
     ((get_scanner_for_mode ''medium'')\<lparr>concurrency := 20\<rparr>, Inr ({}, {}))
   \<and> timeout ((get_scanner_for_mode ''medium'')\<lparr>concurrency := 20\<rparr>)
       = timeout (get_scanner_for_mode ''medium'')
   \<and> scan_subdomains (get_scanner_for_mode ''medium'') example_net []
       (get_scanner_for_mode ''medium'', Inr ({}, {}))"
proof -
  let ?S = "get_scanner_for_mode ''medium''"
  have q: "quick_scan ?S example_net [] (?S\<lparr>concurrency := 20\<rparr>, Inr ({}, {}))"
    by (intro quick_scan.quick scan_empty) simp
  have s: "scan_subdomains ?S example_net [] (?S, Inr ({}, {}))"
    by (rule scan_empty) (simp add: get_scanner_for_mode_def SubdomainScanner_def)
  from scan_config_frame [of ?S example_net "[]" "?S\<lparr>concurrency := 20\<rparr>" "Inr ({}, {})"] q s
  show ?thesis by blast
qed

subsection \<open>C10: every other mode string gets the ultimate profile\<close>

text \<open>C10. For every mode string other than \<^verbatim>\<open>normal\<close> and \<^verbatim>\<open>medium\<close>,
  \<open>get_scanner_for_mode\<close> returns the scanner constructed with concurrency 50 and timeout
  10; the function is total, so no mode string is rejected.\<close>

theorem unknown_mode_is_ultimate:
  assumes "mode \<noteq> ''normal''" and "mode \<noteq> ''medium''"
  shows "get_scanner_for_mode mode = SubdomainScanner 50 10
       \<and> concurrency (get_scanner_for_mode mode) = 50
       \<and> timeout (get_scanner_for_mode mode) = 10"
  using assms by (simp add: get_scanner_for_mode_def SubdomainScanner_def)

theorem unknown_mode_is_ultimate_witness:
  "''bogus'' \<noteq> ''normal'' \<and> ''bogus'' \<noteq> ''medium''
   \<and> concurrency (get_scanner_for_mode ''bogus'') = 50
   \<and> timeout (get_scanner_for_mode ''bogus'') = 10
   \<and> concurrency (get_scanner_for_mode ''ultimate'') = 50
   \<and> timeout (get_scanner_for_mode '''') = 10"
  using unknown_mode_is_ultimate [of "''bogus''"] unknown_mode_is_ultimate [of "''ultimate''"]
    unknown_mode_is_ultimate [of "''''"]
  by (simp add: SubdomainScanner_def)

end
